theory Spec2Isabelle
  imports Main "HOL-Library.Sublist"
begin

section \<open>JavaScript strings and arrays\<close>

text \<open>
  A JavaScript string is a sequence of code units. The development covers the strings
  whose code units are below 256 (the Latin-1 range): the character \<open>c\<close> stands for the
  code unit \<open>of_char c\<close>. In that range the white space of \<^verbatim>\<open>String.prototype.trim\<close> and of
  the regular expression class \<^verbatim>\<open>\s\<close> is TAB, LF, VT, FF, CR, SPACE and NBSP (U+00A0).
\<close>

definition is_space :: "char \<Rightarrow> bool" where
  "is_space c \<longleftrightarrow>
     c \<in> {CHR 0x09, CHR 0x0A, CHR 0x0B, CHR 0x0C, CHR 0x0D, CHR 0x20, CHR 0xA0}"

text \<open>\<^verbatim>\<open>s.trim()\<close>: white space is removed at both ends.\<close>

definition trim :: "string \<Rightarrow> string" where
  "trim s = rev (dropWhile is_space (rev (dropWhile is_space s)))"

text \<open>
  \<^verbatim>\<open>s.toLowerCase()\<close> on Latin-1: the letters A to Z and the accented capitals
  U+00C0 to U+00DE (the multiplication sign U+00D7 apart) move up by 32.
\<close>

definition toLowerChar :: "char \<Rightarrow> char" where
  "toLowerChar c =
     (let n = (of_char c :: nat)
      in if (65 \<le> n \<and> n \<le> 90) \<or> (192 \<le> n \<and> n \<le> 222 \<and> n \<noteq> 215)
         then char_of (n + 32) else c)"

definition toLowerCase :: "string \<Rightarrow> string" where
  "toLowerCase s = map toLowerChar s"

text \<open>
  \<^verbatim>\<open>s.replace(/\s+/g, '')\<close>: scanning from the left, each maximal run of white space
  is matched once and replaced by the empty string.
\<close>

function replace_ws_runs :: "string \<Rightarrow> string" where
  "replace_ws_runs [] = []"
| "replace_ws_runs (c # cs) =
     (if is_space c then replace_ws_runs (dropWhile is_space cs)
      else c # replace_ws_runs cs)"
  by pat_completeness auto
termination
  by (relation "measure length") (auto simp: length_dropWhile_le less_Suc_eq_le)

text \<open>
  \<^verbatim>\<open>s.split(sep)\<close> for a separator that matches exactly one code unit (the string
  \<^verbatim>\<open>'='\<close>, the class \<^verbatim>\<open>/[:\t]/\<close>): the pieces between the matches, empty pieces kept;
  the empty string gives one empty piece.
\<close>

fun push_front :: "char \<Rightarrow> string list \<Rightarrow> string list" where
  "push_front c [] = [[c]]"
| "push_front c (p # ps) = (c # p) # ps"

fun split_char :: "(char \<Rightarrow> bool) \<Rightarrow> string \<Rightarrow> string list" where
  "split_char sep [] = [[]]"
| "split_char sep (c # cs) =
     (if sep c then [] # split_char sep cs else push_front c (split_char sep cs))"

text \<open>
  \<^verbatim>\<open>text.split(/\r?\n/)\<close>: a line break is LF, or CR immediately followed by LF; a CR
  that no LF follows stays in its line.
\<close>

fun split_newline :: "string \<Rightarrow> string list" where
  "split_newline [] = [[]]"
| "split_newline [c] = (if c = CHR 0x0A then [[], []] else [[c]])"
| "split_newline (c # d # cs) =
     (if c = CHR 0x0A then [] # split_newline (d # cs)
      else if c = CHR 0x0D \<and> d = CHR 0x0A then [] # split_newline cs
      else push_front c (split_newline (d # cs)))"

text \<open>\<^verbatim>\<open>parts.join(sep)\<close>.\<close>

fun join :: "string \<Rightarrow> string list \<Rightarrow> string" where
  "join sep [] = []"
| "join sep [p] = p"
| "join sep (p # q # ps) = p @ sep @ join sep (q # ps)"

text \<open>
  \<^verbatim>\<open>xs[i]\<close> is \<^verbatim>\<open>undefined\<close> outside the array, and a method call on \<^verbatim>\<open>undefined\<close>
  throws a TypeError.
\<close>

datatype js_error = TypeError

definition js_index :: "'a list \<Rightarrow> nat \<Rightarrow> 'a option" where
  "js_index xs i = (if i < length xs then Some (xs ! i) else None)"

text \<open>\<^verbatim>\<open>xs.map(f)\<close> where \<open>f\<close> may throw: the first exception ends the call.\<close>

fun map_result :: "('a \<Rightarrow> js_error + 'b) \<Rightarrow> 'a list \<Rightarrow> js_error + 'b list" where
  "map_result f [] = Inr []"
| "map_result f (x # xs) =
     (case f x of
        Inl e \<Rightarrow> Inl e
      | Inr y \<Rightarrow> (case map_result f xs of Inl e \<Rightarrow> Inl e | Inr ys \<Rightarrow> Inr (y # ys)))"

section \<open>The name/table parsers\<close>

record item =
  name :: string
  table :: string

text \<open>The callback of \<^verbatim>\<open>lines.map\<close> in \<^verbatim>\<open>parseNamesFromText\<close> (server.js).\<close>

definition parseLine :: "string \<Rightarrow> js_error + item" where
  "parseLine line =
     (let parts = split_char (\<lambda>c. c = CHR ''='') line in
      if length parts \<ge> 2 then
        (case js_index parts 0 of
           None \<Rightarrow> Inl TypeError
         | Some p0 \<Rightarrow> Inr \<lparr>name = trim p0, table = trim (join ''='' (drop 1 parts))\<rparr>)
      else
        (let altParts = split_char (\<lambda>c. c = CHR '':'' \<or> c = CHR 0x09) line in
         if length altParts \<ge> 2 then
           (case js_index altParts 0 of
              None \<Rightarrow> Inl TypeError
            | Some a0 \<Rightarrow>
                (case js_index altParts 1 of
                   None \<Rightarrow> Inl TypeError
                 | Some a1 \<Rightarrow> Inr \<lparr>name = trim a0, table = trim a1\<rparr>))
         else Inr \<lparr>name = trim line, table = []\<rparr>))"

text \<open>The callback of the final \<^verbatim>\<open>filter\<close>: the header word and empty names go.\<close>

definition keep_item :: "item \<Rightarrow> bool" where
  "keep_item it =
     (let norm = replace_ws_runs (toLowerCase (name it))
      in norm \<noteq> ''liste'' \<and> norm \<noteq> [])"

text \<open>
  \<^verbatim>\<open>parseNamesFromText\<close> in its three steps: the constant \<^verbatim>\<open>lines\<close> (the lines that are
  not blank), the value of \<^verbatim>\<open>lines.map(...)\<close> (one item for each of them), and the
  filtered result.
\<close>

definition text_lines :: "string \<Rightarrow> string list" where
  "text_lines text = filter (\<lambda>line. trim line \<noteq> []) (split_newline text)"

definition mapped_items :: "string \<Rightarrow> js_error + item list" where
  "mapped_items text = map_result parseLine (text_lines text)"

definition parseNamesFromText :: "string \<Rightarrow> js_error + item list" where
  "parseNamesFromText text =
     (case mapped_items text of
        Inl e \<Rightarrow> Inl e
      | Inr items \<Rightarrow> Inr (filter keep_item items))"

text \<open>
  The callback of \<^verbatim>\<open>lines.map\<close> in \<^verbatim>\<open>parseDocxNames\<close> (utils/docxParser.js): only the
  equals sign splits a line.
\<close>

definition parseDocxLine :: "string \<Rightarrow> js_error + item" where
  "parseDocxLine line =
     (let parts = split_char (\<lambda>c. c = CHR ''='') line in
      if length parts \<ge> 2 then
        (case js_index parts 0 of
           None \<Rightarrow> Inl TypeError
         | Some p0 \<Rightarrow> Inr \<lparr>name = trim p0, table = trim (join ''='' (drop 1 parts))\<rparr>)
      else Inr \<lparr>name = trim line, table = []\<rparr>)"

text \<open>
  \<^verbatim>\<open>parseDocxNames\<close> from the extracted text on; its \<^verbatim>\<open>catch\<close> turns an exception into
  the empty list.
\<close>

definition parseDocxNames :: "string \<Rightarrow> item list" where
  "parseDocxNames text =
     (case map_result parseDocxLine (text_lines text) of
        Inl e \<Rightarrow> []
      | Inr items \<Rightarrow> filter keep_item items)"

text \<open>
  A spreadsheet row is the array of its cells, here strings. \<^verbatim>\<open>String(row[i] || '')\<close>
  is the cell, and the empty string when the cell is absent.
\<close>

definition cell :: "string list \<Rightarrow> nat \<Rightarrow> string" where
  "cell row i = (case js_index row i of None \<Rightarrow> [] | Some s \<Rightarrow> s)"

text \<open>The callback of \<^verbatim>\<open>data.map\<close> in the spreadsheet branch of \<^verbatim>\<open>extractNamesFromFile\<close>.\<close>

definition parseRow :: "string list \<Rightarrow> js_error + item" where
  "parseRow row =
     (let name0 = trim (cell row 0); table0 = trim (cell row 1) in
      if table0 = [] \<and> CHR ''='' \<in> set name0 then
        (let parts = split_char (\<lambda>c. c = CHR ''='') name0 in
         case js_index parts 0 of
           None \<Rightarrow> Inl TypeError
         | Some p0 \<Rightarrow>
             (case js_index parts 1 of
                None \<Rightarrow> Inl TypeError
              | Some p1 \<Rightarrow> Inr \<lparr>name = trim p0, table = trim p1\<rparr>))
      else if table0 = [] \<and> CHR '':'' \<in> set name0 then
        (let parts = split_char (\<lambda>c. c = CHR '':'') name0 in
         case js_index parts 0 of
           None \<Rightarrow> Inl TypeError
         | Some p0 \<Rightarrow>
             (case js_index parts 1 of
                None \<Rightarrow> Inl TypeError
              | Some p1 \<Rightarrow> Inr \<lparr>name = trim p0, table = trim p1\<rparr>))
      else Inr \<lparr>name = name0, table = table0\<rparr>)"

text \<open>
  The spreadsheet branch of \<^verbatim>\<open>extractNamesFromFile\<close>, from the rows of the first sheet
  on: rows whose name is the empty string are dropped.
\<close>

definition extractNamesFromRows :: "string list list \<Rightarrow> js_error + item list" where
  "extractNamesFromRows data =
     (case map_result parseRow data of
        Inl e \<Rightarrow> Inl e
      | Inr items \<Rightarrow> Inr (filter (\<lambda>row. name row \<noteq> []) items))"

section \<open>Facts about splitting, joining and trimming\<close>

lemma push_front_not_Nil: "push_front c ps \<noteq> []"
  by (cases ps) simp_all

lemma split_char_not_Nil: "split_char sep s \<noteq> []"
  by (cases s) (simp_all add: push_front_not_Nil)

lemma split_char_no_sep: "\<forall>c\<in>set a. \<not> sep c \<Longrightarrow> split_char sep a = [a]"
  by (induction a) simp_all

lemma split_char_first_sep:
  "\<forall>c\<in>set a. \<not> sep c \<Longrightarrow> sep d \<Longrightarrow> split_char sep (a @ d # b) = a # split_char sep b"
  by (induction a) simp_all

lemma split_char_second:
  assumes "\<forall>c\<in>set b. \<not> sep c" and "rest = [] \<or> sep (hd rest)"
  shows "\<exists>ps. split_char sep (b @ rest) = b # ps"
proof (cases rest)
  case Nil
  then show ?thesis using assms(1) by (simp add: split_char_no_sep)
next
  case (Cons d r)
  with assms(2) have "sep d" by simp
  then show ?thesis unfolding Cons using split_char_first_sep [OF assms(1), of d r] by simp
qed

lemma split_equals_single:
  "CHR ''='' \<notin> set line \<Longrightarrow> split_char (\<lambda>c. c = CHR ''='') line = [line]"
  by (rule split_char_no_sep) blast

lemma join_Cons_Cons: "join sep ((c # p) # ps) = c # join sep (p # ps)"
  by (cases ps) simp_all

lemma join_split_char: "join [d] (split_char (\<lambda>c. c = d) s) = s"
proof (induction s)
  case Nil
  show ?case by simp
next
  case (Cons c s)
  obtain p ps where ps: "split_char (\<lambda>c. c = d) s = p # ps"
    using split_char_not_Nil by (metis neq_Nil_conv)
  show ?case
  proof (cases "c = d")
    case True
    then show ?thesis using Cons ps by simp
  next
    case False
    then show ?thesis using Cons ps by (simp add: join_Cons_Cons)
  qed
qed

lemma length_split_char_ge2: "length (split_char sep s) \<ge> 2 \<longleftrightarrow> (\<exists>c\<in>set s. sep c)"
proof
  assume "\<exists>c\<in>set s. sep c"
  from split_list_first_prop [OF this]
  obtain a d b where s: "s = a @ d # b" and d: "sep d" and a: "\<forall>c\<in>set a. \<not> sep c"
    by (elim exE conjE)
  obtain p ps where "split_char sep b = p # ps"
    using split_char_not_Nil [of sep b] by (cases "split_char sep b") simp_all
  then have "split_char sep s = a # p # ps"
    unfolding s using split_char_first_sep [OF a d, of b] by simp
  then show "length (split_char sep s) \<ge> 2" by simp
next
  assume l: "length (split_char sep s) \<ge> 2"
  show "\<exists>c\<in>set s. sep c"
  proof (rule ccontr)
    assume "\<not> (\<exists>c\<in>set s. sep c)"
    then have "\<forall>c\<in>set s. \<not> sep c" by simp
    then have "split_char sep s = [s]" by (rule split_char_no_sep)
    with l show False by simp
  qed
qed

lemma filter_dropWhile_not: "filter (\<lambda>c. \<not> P c) (dropWhile P xs) = filter (\<lambda>c. \<not> P c) xs"
  by (induction xs) simp_all

lemma replace_ws_runs_filter: "replace_ws_runs s = filter (\<lambda>c. \<not> is_space c) s"
  by (induction s rule: replace_ws_runs.induct) (simp_all add: filter_dropWhile_not)

lemma in_dropWhile: "c \<in> set s \<Longrightarrow> \<not> P c \<Longrightarrow> c \<in> set (dropWhile P s)"
  by (induction s) auto

lemma dropWhile_first:
  "\<forall>c\<in>set a. P c \<Longrightarrow> \<not> P d \<Longrightarrow> dropWhile P (a @ d # t) = d # t"
  by (induction a) simp_all

lemma dropWhile_rev_last:
  "xs \<noteq> [] \<Longrightarrow> \<not> P (last xs) \<Longrightarrow> dropWhile P (rev xs) = rev xs"
  by (cases xs rule: rev_cases) simp_all

lemma dropWhile_hd: "xs \<noteq> [] \<Longrightarrow> \<not> P (hd xs) \<Longrightarrow> dropWhile P xs = xs"
  by (cases xs) simp_all

lemma is_space_blank: "is_space (CHR '' '')"
  by (simp add: is_space_def)

lemma is_space_tab: "is_space (CHR 0x09)"
  by (simp add: is_space_def)

lemma not_space_equals: "\<not> is_space (CHR ''='')"
  by (simp add: is_space_def)

lemma not_space_colon: "\<not> is_space (CHR '':'')"
  by (simp add: is_space_def)

lemma trim_Nil: "trim [] = []"
  by (simp add: trim_def)

lemma set_trim: "set (trim s) \<subseteq> set s"
proof
  fix c assume "c \<in> set (trim s)"
  then have "c \<in> set (dropWhile is_space (rev (dropWhile is_space s)))" by (simp add: trim_def)
  then have "c \<in> set (rev (dropWhile is_space s))" by (rule set_dropWhileD)
  then have "c \<in> set (dropWhile is_space s)" by simp
  then show "c \<in> set s" by (rule set_dropWhileD)
qed

lemma in_set_trim:
  assumes "c \<in> set s" and "\<not> is_space c"
  shows "c \<in> set (trim s)"
proof -
  have "c \<in> set (rev (dropWhile is_space s))" using assms by (simp add: in_dropWhile)
  then have "c \<in> set (dropWhile is_space (rev (dropWhile is_space s)))"
    using assms(2) by (rule in_dropWhile)
  then show ?thesis by (simp add: trim_def)
qed

lemma trim_eq_Nil: "trim s = [] \<longleftrightarrow> (\<forall>c\<in>set s. is_space c)"
proof
  assume "\<forall>c\<in>set s. is_space c"
  then have "dropWhile is_space s = []" by simp
  then show "trim s = []" unfolding trim_def by (simp only: rev.simps dropWhile.simps)
next
  assume "trim s = []"
  then have "dropWhile is_space (rev (dropWhile is_space s)) = []"
    unfolding trim_def by simp
  then have a: "\<forall>c\<in>set (dropWhile is_space s). is_space c"
    unfolding dropWhile_eq_Nil_conv by simp
  have "dropWhile is_space s = []"
  proof (rule ccontr)
    assume ne: "dropWhile is_space s \<noteq> []"
    then have "\<not> is_space (hd (dropWhile is_space s))" by (rule hd_dropWhile)
    moreover have "hd (dropWhile is_space s) \<in> set (dropWhile is_space s)"
      using ne by (rule hd_in_set)
    ultimately show False using a by blast
  qed
  then show "\<forall>c\<in>set s. is_space c"
    unfolding dropWhile_eq_Nil_conv .
qed

lemma trim_fixed:
  assumes "t = [] \<or> (\<not> is_space (hd t) \<and> \<not> is_space (last t))"
  shows "trim t = t"
proof (cases "t = []")
  case True
  then show ?thesis by (simp add: trim_def)
next
  case False
  with assms have "dropWhile is_space t = t" "dropWhile is_space (rev t) = rev t"
    by (simp_all add: dropWhile_hd dropWhile_rev_last)
  then show ?thesis by (simp add: trim_def)
qed

lemma trim_last: "trim s \<noteq> [] \<Longrightarrow> \<not> is_space (last (trim s))"
  unfolding trim_def by (simp add: last_rev hd_dropWhile)

lemma trim_prefix:
  "dropWhile is_space s = trim s @ rev (takeWhile is_space (rev (dropWhile is_space s)))"
proof -
  let ?d = "dropWhile is_space s"
  have "rev (dropWhile is_space (rev ?d)) @ rev (takeWhile is_space (rev ?d))
      = rev (takeWhile is_space (rev ?d) @ dropWhile is_space (rev ?d))"
    by (simp only: rev_append)
  also have "\<dots> = rev (rev ?d)" by (simp only: takeWhile_dropWhile_id)
  also have "\<dots> = ?d" by (simp only: rev_rev_ident)
  finally show ?thesis unfolding trim_def by (rule sym)
qed

lemma trim_hd:
  assumes "trim s \<noteq> []"
  shows "\<not> is_space (hd (trim s))"
proof -
  let ?d = "dropWhile is_space s"
  have "hd ?d = hd (trim s)"
    using assms trim_prefix [of s] by (metis hd_append2)
  moreover have "?d \<noteq> []" using assms trim_prefix [of s] by (metis append_is_Nil_conv)
  ultimately show ?thesis using hd_dropWhile [of is_space s] by simp
qed

lemma trim_idem: "trim (trim s) = trim s"
  by (rule trim_fixed) (use trim_hd trim_last in blast)

lemma trim_space_Cons: "is_space c \<Longrightarrow> trim (c # t) = trim t"
  by (simp add: trim_def)

lemma trim_append_spaces:
  assumes "\<forall>c\<in>set w. is_space c"
  shows "trim (t @ w) = trim t"
proof (cases "\<forall>c\<in>set t. is_space c")
  case True
  then have "\<forall>c\<in>set (t @ w). is_space c" using assms by auto
  then have "trim (t @ w) = []" by (simp only: trim_eq_Nil)
  moreover have "trim t = []" using True by (simp only: trim_eq_Nil)
  ultimately show ?thesis by simp
next
  case False
  then obtain x where "x \<in> set t" "\<not> is_space x" by blast
  then have 1: "dropWhile is_space (t @ w) = dropWhile is_space t @ w"
    by (rule dropWhile_append1)
  have 2: "dropWhile is_space (rev w @ z) = dropWhile is_space z" for z
    by (rule dropWhile_append2) (use assms in simp)
  show ?thesis unfolding trim_def 1 by (simp add: 2)
qed

lemma trim_append_longer:
  assumes "\<exists>c\<in>set w. \<not> is_space c"
  shows "length (trim t) < length (trim (t @ w))"
proof (cases "\<forall>c\<in>set t. is_space c")
  case True
  then have "trim t = []" by (simp only: trim_eq_Nil)
  moreover have "trim (t @ w) \<noteq> []" using assms by (auto simp: trim_eq_Nil)
  ultimately show ?thesis by simp
next
  case False
  then obtain x where "x \<in> set t" "\<not> is_space x" by blast
  then have 1: "dropWhile is_space (t @ w) = dropWhile is_space t @ w"
    by (rule dropWhile_append1)
  obtain y where y: "y \<in> set (rev w)" "\<not> is_space y" using assms by auto
  have 2: "dropWhile is_space (rev w @ z) = dropWhile is_space (rev w) @ z" for z
    using y by (rule dropWhile_append1)
  have ne: "dropWhile is_space (rev w) \<noteq> []"
    using y by (auto simp: dropWhile_eq_Nil_conv)
  have "trim (t @ w) = dropWhile is_space t @ rev (dropWhile is_space (rev w))"
    unfolding trim_def 1 by (simp add: 2)
  then have "length (dropWhile is_space t) < length (trim (t @ w))" using ne by simp
  moreover have "length (trim t) \<le> length (dropWhile is_space t)"
    using trim_prefix [of t] by (metis le_add1 length_append)
  ultimately show ?thesis by simp
qed

lemma push_front_set:
  "l \<in> set (push_front c ps) \<Longrightarrow> l = [c] \<or> (\<exists>p\<in>set ps. l = c # p \<or> l = p)"
  by (cases ps) auto

lemma split_newline_no_LF: "l \<in> set (split_newline t) \<Longrightarrow> CHR 0x0A \<notin> set l"
proof (induction t arbitrary: l rule: split_newline.induct)
  case 1
  then show ?case by simp
next
  case (2 c)
  then show ?case by (auto split: if_splits)
next
  case (3 c d cs)
  show ?case
  proof (cases "c = CHR 0x0A")
    case True
    then show ?thesis using 3 by auto
  next
    case nl: False
    show ?thesis
    proof (cases "c = CHR 0x0D \<and> d = CHR 0x0A")
      case True
      then show ?thesis using 3 nl by auto
    next
      case False
      then have "l \<in> set (push_front c (split_newline (d # cs)))" using 3(4) nl by auto
      then have "l = [c] \<or> (\<exists>p\<in>set (split_newline (d # cs)). l = c # p \<or> l = p)"
        by (rule push_front_set)
      then show ?thesis using 3(3) [OF nl False] nl by auto
    qed
  qed
qed

lemma split_newline_single: "CHR 0x0A \<notin> set s \<Longrightarrow> split_newline s = [s]"
  by (induction s rule: split_newline.induct) auto

lemma map_result_Inr:
  "\<forall>x\<in>set xs. \<exists>y. f x = Inr y \<Longrightarrow> \<exists>ys. map_result f xs = Inr ys"
proof (induction xs)
  case Nil
  show ?case by simp
next
  case (Cons x xs)
  then obtain y ys where "f x = Inr y" "map_result f xs = Inr ys" by auto
  then show ?case by simp
qed

lemma map_result_map: "map_result f xs = Inr ys \<Longrightarrow> map f xs = map Inr ys"
proof (induction xs arbitrary: ys)
  case Nil
  then show ?case by simp
next
  case (Cons x xs)
  then show ?case by (auto split: sum.splits)
qed

lemma count_list_filter:
  "count_list (filter P xs) x = (if P x then count_list xs x else 0)"
  by (induction xs) auto

lemma count_list_Inr: "count_list (map Inr xs) (Inr x) = count_list xs x"
  by (induction xs) auto

section \<open>What one line and one row parse to\<close>

lemma parseLine_total: "\<exists>r. parseLine line = Inr r"
  by (simp add: parseLine_def Let_def js_index_def)

lemma parseDocxLine_total: "\<exists>r. parseDocxLine line = Inr r"
  by (simp add: parseDocxLine_def Let_def js_index_def)

lemma parseLine_equals_split:
  assumes "CHR ''='' \<notin> set a"
  shows "parseLine (a @ CHR ''='' # b) = Inr \<lparr>name = trim a, table = trim b\<rparr>"
proof -
  let ?sep = "\<lambda>c. c = CHR ''=''"
  have a: "\<forall>c\<in>set a. \<not> ?sep c" using assms by blast
  have parts: "split_char ?sep (a @ CHR ''='' # b) = a # split_char ?sep b"
    using split_char_first_sep [OF a, of "CHR ''=''" b] by simp
  obtain p ps where b: "split_char ?sep b = p # ps"
    using split_char_not_Nil [of ?sep b] by (cases "split_char ?sep b") simp_all
  have j: "join ''='' (p # ps) = b"
    using join_split_char [of "CHR ''=''" b] by (simp add: b)
  show ?thesis
    unfolding parseLine_def Let_def parts b by (simp add: js_index_def j)
qed

lemma parseDocxLine_equals_split:
  assumes "CHR ''='' \<notin> set a"
  shows "parseDocxLine (a @ CHR ''='' # b) = Inr \<lparr>name = trim a, table = trim b\<rparr>"
proof -
  let ?sep = "\<lambda>c. c = CHR ''=''"
  have a: "\<forall>c\<in>set a. \<not> ?sep c" using assms by blast
  have parts: "split_char ?sep (a @ CHR ''='' # b) = a # split_char ?sep b"
    using split_char_first_sep [OF a, of "CHR ''=''" b] by simp
  obtain p ps where b: "split_char ?sep b = p # ps"
    using split_char_not_Nil [of ?sep b] by (cases "split_char ?sep b") simp_all
  have j: "join ''='' (p # ps) = b"
    using join_split_char [of "CHR ''=''" b] by (simp add: b)
  show ?thesis
    unfolding parseDocxLine_def Let_def parts b by (simp add: js_index_def j)
qed

lemma parseLine_alt_split:
  assumes eq: "CHR ''='' \<notin> set (a @ d # b @ rest)"
    and d: "d = CHR '':'' \<or> d = CHR 0x09"
    and a: "\<forall>c\<in>set a. c \<noteq> CHR '':'' \<and> c \<noteq> CHR 0x09"
    and b: "\<forall>c\<in>set b. c \<noteq> CHR '':'' \<and> c \<noteq> CHR 0x09"
    and rest: "rest = [] \<or> hd rest = CHR '':'' \<or> hd rest = CHR 0x09"
  shows "parseLine (a @ d # b @ rest) = Inr \<lparr>name = trim a, table = trim b\<rparr>"
proof -
  let ?sep = "\<lambda>c. c = CHR '':'' \<or> c = CHR 0x09"
  have a': "\<forall>c\<in>set a. \<not> ?sep c" and b': "\<forall>c\<in>set b. \<not> ?sep c"
    using a b by simp_all
  have d': "?sep d" using d by simp
  have rest': "rest = [] \<or> ?sep (hd rest)" using rest by blast
  obtain ps where ps: "split_char ?sep (b @ rest) = b # ps"
    using split_char_second [of b ?sep rest, OF b' rest'] by blast
  have alt: "split_char ?sep (a @ d # b @ rest) = a # b # ps"
    using split_char_first_sep [of a ?sep d "b @ rest", OF a' d'] ps by simp
  show ?thesis
    unfolding parseLine_def Let_def split_equals_single [OF eq] alt
    by (simp add: js_index_def)
qed

lemma parseLine_no_delimiter:
  assumes "CHR ''='' \<notin> set line" "CHR '':'' \<notin> set line" "CHR 0x09 \<notin> set line"
  shows "parseLine line = Inr \<lparr>name = trim line, table = []\<rparr>"
proof -
  have "split_char (\<lambda>c. c = CHR '':'' \<or> c = CHR 0x09) line = [line]"
    by (rule split_char_no_sep) (use assms in blast)
  then show ?thesis
    unfolding parseLine_def Let_def split_equals_single [OF assms(1)] by simp
qed

lemma parseDocxLine_no_equals:
  assumes "CHR ''='' \<notin> set line"
  shows "parseDocxLine line = Inr \<lparr>name = trim line, table = []\<rparr>"
  unfolding parseDocxLine_def Let_def split_equals_single [OF assms] by simp

lemma parseLine_shape:
  obtains (equals) a b where "line = a @ CHR ''='' # b" "CHR ''='' \<notin> set a"
      "parseLine line = Inr \<lparr>name = trim a, table = trim b\<rparr>"
  | (alt) a b where "CHR ''='' \<notin> set line" "set a \<subseteq> set line" "set b \<subseteq> set line"
      "parseLine line = Inr \<lparr>name = trim a, table = trim b\<rparr>"
  | (plain) "CHR ''='' \<notin> set line" "parseLine line = Inr \<lparr>name = trim line, table = []\<rparr>"
proof (cases "CHR ''='' \<in> set line")
  case True
  then have "\<exists>c\<in>set line. c = CHR ''=''" by simp
  from split_list_first_prop [OF this]
  obtain a d b where "line = a @ d # b" "d = CHR ''=''" "\<forall>c\<in>set a. c \<noteq> CHR ''=''"
    by (elim exE conjE)
  then have l: "line = a @ CHR ''='' # b" and a: "CHR ''='' \<notin> set a" by auto
  show ?thesis using equals [OF l a] parseLine_equals_split [OF a, of b] l by simp
next
  case noeq: False
  let ?sep = "\<lambda>c. c = CHR '':'' \<or> c = CHR 0x09"
  show ?thesis
  proof (cases "\<exists>c\<in>set line. ?sep c")
    case True
    from split_list_first_prop [OF this]
    obtain a d t where l: "line = a @ d # t" and d: "?sep d" and a: "\<forall>c\<in>set a. \<not> ?sep c"
      by (elim exE conjE)
    define b where "b = takeWhile (\<lambda>c. \<not> ?sep c) t"
    define rest where "rest = dropWhile (\<lambda>c. \<not> ?sep c) t"
    have t: "t = b @ rest" by (simp add: b_def rest_def)
    have b: "\<forall>c\<in>set b. c \<noteq> CHR '':'' \<and> c \<noteq> CHR 0x09"
      unfolding b_def using set_takeWhileD [of _ "\<lambda>c. \<not> ?sep c" t] by blast
    have rest: "rest = [] \<or> hd rest = CHR '':'' \<or> hd rest = CHR 0x09"
      unfolding rest_def using hd_dropWhile [of "\<lambda>c. \<not> ?sep c" t] by blast
    have l': "line = a @ d # b @ rest" using l t by simp
    have "parseLine (a @ d # b @ rest) = Inr \<lparr>name = trim a, table = trim b\<rparr>"
      by (rule parseLine_alt_split) (use noeq l' d a b rest in simp_all)
    then have p: "parseLine line = Inr \<lparr>name = trim a, table = trim b\<rparr>" using l' by simp
    have "set a \<subseteq> set line" "set b \<subseteq> set line" using l' by auto
    then show ?thesis using alt noeq p by blast
  next
    case False
    then have "CHR '':'' \<notin> set line" "CHR 0x09 \<notin> set line" by auto
    then show ?thesis using plain noeq parseLine_no_delimiter by blast
  qed
qed

lemma parseLine_fields:
  assumes "parseLine line = Inr r"
  shows "\<exists>x y. name r = trim x \<and> table r = trim y \<and> set x \<subseteq> set line \<and> set y \<subseteq> set line"
proof (cases line rule: parseLine_shape)
  case (equals a b)
  then have "name r = trim a" "table r = trim b" "set a \<subseteq> set line" "set b \<subseteq> set line"
    using assms by auto
  then show ?thesis by blast
next
  case (alt a b)
  then have "name r = trim a" "table r = trim b" using assms by auto
  then show ?thesis using alt by blast
next
  case plain
  then have "name r = trim line" "table r = trim []" using assms by (auto simp: trim_Nil)
  then show ?thesis by (metis empty_subsetI list.set(1) subset_refl)
qed

lemma parseLine_name_no_equals:
  assumes "parseLine line = Inr r"
  shows "CHR ''='' \<notin> set (name r)"
proof (cases line rule: parseLine_shape)
  case (equals a b)
  then have "name r = trim a" using assms by auto
  then show ?thesis using equals(2) set_trim [of a] by auto
next
  case (alt a b)
  then have "name r = trim a" using assms by auto
  then show ?thesis using alt(1,2) set_trim [of a] by auto
next
  case plain
  then have "name r = trim line" using assms by auto
  then show ?thesis using plain(1) set_trim [of line] by auto
qed

lemma parseLine_name_trimmed: "parseLine l = Inr r \<Longrightarrow> trim (name r) = name r"
  using parseLine_fields [of l r] by (auto simp: trim_idem)

lemma parseLine_table_trimmed: "parseLine l = Inr r \<Longrightarrow> trim (table r) = table r"
  using parseLine_fields [of l r] by (auto simp: trim_idem)

lemma parseLine_blank:
  assumes "trim line = []" and "parseLine line = Inr r"
  shows "name r = []"
proof -
  obtain x where x: "name r = trim x" "set x \<subseteq> set line"
    using parseLine_fields [OF assms(2)] by blast
  have "\<forall>c\<in>set line. is_space c" using assms(1) by (simp add: trim_eq_Nil)
  then have "\<forall>c\<in>set x. is_space c" using x(2) by blast
  then show ?thesis using x(1) by (simp add: trim_eq_Nil)
qed

lemma count_parseLine_blank:
  assumes "name r \<noteq> []"
  shows "count_list (map parseLine (filter (\<lambda>l. trim l \<noteq> []) ls)) (Inr r)
    = count_list (map parseLine ls) (Inr r)"
proof (induction ls)
  case Nil
  show ?case by simp
next
  case (Cons l ls)
  have "parseLine l \<noteq> Inr r" if "trim l = []"
    using parseLine_blank [OF that, of r] assms by blast
  then show ?case using Cons by simp
qed

lemma parsers_agree_iff:
  assumes noeq: "CHR ''='' \<notin> set line"
  shows "parseLine line = parseDocxLine line
    \<longleftrightarrow> CHR '':'' \<notin> set line
        \<and> (\<forall>c\<in>set (dropWhile (\<lambda>c. c \<noteq> CHR 0x09) line). is_space c)"
proof -
  let ?sep = "\<lambda>c. c = CHR '':'' \<or> c = CHR 0x09"
  have docx: "parseDocxLine line = Inr \<lparr>name = trim line, table = []\<rparr>"
    using noeq by (rule parseDocxLine_no_equals)
  show ?thesis
  proof (cases "\<exists>c\<in>set line. ?sep c")
    case False
    then have c: "CHR '':'' \<notin> set line" and t: "CHR 0x09 \<notin> set line" by auto
    have "parseLine line = Inr \<lparr>name = trim line, table = []\<rparr>"
      using noeq c t by (rule parseLine_no_delimiter)
    moreover have "dropWhile (\<lambda>c. c \<noteq> CHR 0x09) line = []"
      using t by (auto simp: dropWhile_eq_Nil_conv)
    then have "\<forall>c\<in>set (dropWhile (\<lambda>c. c \<noteq> CHR 0x09) line). is_space c"
      by (simp only: list.set ball_empty)
    ultimately show ?thesis using docx c by simp
  next
    case True
    from split_list_first_prop [OF this]
    obtain a d t where l: "line = a @ d # t" and d: "?sep d" and a: "\<forall>c\<in>set a. \<not> ?sep c"
      by (elim exE conjE)
    define b where "b = takeWhile (\<lambda>c. \<not> ?sep c) t"
    define rest where "rest = dropWhile (\<lambda>c. \<not> ?sep c) t"
    have t: "t = b @ rest" by (simp add: b_def rest_def)
    have b: "\<forall>c\<in>set b. c \<noteq> CHR '':'' \<and> c \<noteq> CHR 0x09"
      unfolding b_def using set_takeWhileD [of _ "\<lambda>c. \<not> ?sep c" t] by blast
    have rest: "rest = [] \<or> hd rest = CHR '':'' \<or> hd rest = CHR 0x09"
      unfolding rest_def using hd_dropWhile [of "\<lambda>c. \<not> ?sep c" t] by blast
    have l': "line = a @ d # b @ rest" using l t by simp
    have "parseLine (a @ d # b @ rest) = Inr \<lparr>name = trim a, table = trim b\<rparr>"
      by (rule parseLine_alt_split) (use noeq l' d a b rest in simp_all)
    then have main: "parseLine line = Inr \<lparr>name = trim a, table = trim b\<rparr>"
      using l' by simp
    show ?thesis
    proof (cases "CHR '':'' \<in> set line")
      case True
      then have "CHR '':'' \<in> set (trim line)" using not_space_colon by (rule in_set_trim)
      moreover have "CHR '':'' \<notin> set (trim a)" using a set_trim [of a] by auto
      ultimately have "trim a \<noteq> trim line" by metis
      then show ?thesis using True main docx by simp
    next
      case False
      then have dt: "d = CHR 0x09" using d l by auto
      have "\<forall>c\<in>set a. c \<noteq> CHR 0x09" using a by simp
      then have dw: "dropWhile (\<lambda>c. c \<noteq> CHR 0x09) line = CHR 0x09 # t"
        unfolding l dt by (rule dropWhile_first) simp
      show ?thesis
      proof (cases "\<forall>c\<in>set t. is_space c")
        case True
        then have w: "\<forall>c\<in>set (d # t). is_space c" using dt is_space_tab by simp
        have "trim (a @ (d # t)) = trim a" using w by (rule trim_append_spaces)
        then have n: "trim line = trim a" using l by simp
        have "\<forall>c\<in>set b. is_space c" using True t by simp
        then have "trim b = []" by (simp only: trim_eq_Nil)
        then show ?thesis using main docx n False True dw is_space_tab by simp
      next
        case nsp: False
        then have "\<exists>c\<in>set (d # t). \<not> is_space c" by auto
        then have "length (trim a) < length (trim (a @ (d # t)))"
          by (rule trim_append_longer)
        then have "trim a \<noteq> trim line" using l by auto
        then show ?thesis using main docx nsp dw by simp
      qed
    qed
  qed
qed

lemma parseRow_total: "\<exists>r. parseRow row = Inr r"
proof -
  have 1: "length (split_char (\<lambda>c. c = CHR ''='') s) \<ge> 2" if "CHR ''='' \<in> set s" for s
    using that by (simp add: length_split_char_ge2)
  have 2: "length (split_char (\<lambda>c. c = CHR '':'') s) \<ge> 2" if "CHR '':'' \<in> set s" for s
    using that by (simp add: length_split_char_ge2)
  show ?thesis
    unfolding parseRow_def Let_def js_index_def using 1 2 by fastforce
qed

lemma parseRow_name_trimmed:
  assumes "parseRow row = Inr r"
  shows "trim (name r) = name r"
proof -
  have "\<exists>x. name r = trim x"
    using assms unfolding parseRow_def Let_def
    by (auto split: if_splits option.splits)
  then show ?thesis by (auto simp: trim_idem)
qed

lemma keep_item_iff:
  "keep_item r \<longleftrightarrow>
     filter (\<lambda>c. \<not> is_space c) (map toLowerChar (name r)) \<notin> {''liste'', []}"
  by (simp add: keep_item_def Let_def replace_ws_runs_filter toLowerCase_def)

lemma keep_item_name: "keep_item r \<Longrightarrow> name r \<noteq> []"
  by (auto simp: keep_item_iff)

section \<open>The parsers as a whole\<close>

lemma mapped_items_lines:
  "\<exists>items. mapped_items text = Inr items \<and> map Inr items = map parseLine (text_lines text)"
proof -
  have "\<forall>l\<in>set (text_lines text). \<exists>r. parseLine l = Inr r"
    using parseLine_total by blast
  then obtain items where i: "map_result parseLine (text_lines text) = Inr items"
    using map_result_Inr by blast
  then have "map parseLine (text_lines text) = map Inr items" by (rule map_result_map)
  then show ?thesis using i by (simp add: mapped_items_def)
qed

lemma mapped_items_member:
  assumes "mapped_items text = Inr items" and "r \<in> set items"
  shows "\<exists>l\<in>set (text_lines text). parseLine l = Inr r"
proof -
  have "map parseLine (text_lines text) = map Inr items"
    using assms(1) unfolding mapped_items_def by (rule map_result_map)
  moreover have "Inr r \<in> set (map Inr items)" using assms(2) by simp
  ultimately have "Inr r \<in> set (map parseLine (text_lines text))" by simp
  then show ?thesis by auto
qed

lemma parseNamesFromText_items:
  "mapped_items text = Inr items \<Longrightarrow> parseNamesFromText text = Inr (filter keep_item items)"
  by (simp add: parseNamesFromText_def)

lemma extractNamesFromRows_items:
  "\<exists>items. map Inr items = map parseRow data
     \<and> extractNamesFromRows data = Inr (filter (\<lambda>row. name row \<noteq> []) items)"
proof -
  have "\<forall>row\<in>set data. \<exists>r. parseRow row = Inr r" using parseRow_total by blast
  then obtain items where i: "map_result parseRow data = Inr items"
    using map_result_Inr by blast
  then have "map parseRow data = map Inr items" by (rule map_result_map)
  then show ?thesis using i by (simp add: extractNamesFromRows_def)
qed

lemma parseDocxNames_items:
  "\<exists>items. map Inr items = map parseDocxLine (text_lines text)
     \<and> parseDocxNames text = filter keep_item items"
proof -
  have "\<forall>l\<in>set (text_lines text). \<exists>r. parseDocxLine l = Inr r"
    using parseDocxLine_total by blast
  then obtain items where i: "map_result parseDocxLine (text_lines text) = Inr items"
    using map_result_Inr by blast
  then have "map parseDocxLine (text_lines text) = map Inr items" by (rule map_result_map)
  then show ?thesis using i by (simp add: parseDocxNames_def)
qed

section \<open>Per-line rules of the text parser\<close>

text \<open>
  C1. A line of the input that is not blank and contains an equals sign: the name is
  the text before the first equals sign, trimmed, and the table is all the text after
  it, later equals signs included, trimmed.
\<close>

theorem equals_rule_first_delimiter:
  assumes "line \<in> set (text_lines text)"
    and "line = a @ CHR ''='' # b" and "CHR ''='' \<notin> set a"
  shows "parseLine line = Inr \<lparr>name = trim a, table = trim b\<rparr>"
  using assms(2) parseLine_equals_split [OF assms(3), of b] by simp

theorem equals_rule_first_delimiter_witness:
  "''Name = Table = Something'' \<in> set (text_lines ''Name = Table = Something'')
   \<and> parseLine ''Name = Table = Something''
       = Inr \<lparr>name = ''Name'', table = ''Table = Something''\<rparr>"
proof -
  have l: "''Name = Table = Something'' \<in> set (text_lines ''Name = Table = Something'')"
    by code_simp
  have s: "''Name = Table = Something'' = ''Name '' @ CHR ''='' # '' Table = Something''"
    by simp
  have a: "CHR ''='' \<notin> set ''Name ''" by simp
  have t: "trim ''Name '' = ''Name''" "trim '' Table = Something'' = ''Table = Something''"
    by code_simp+
  show ?thesis
    using l equals_rule_first_delimiter [OF l s a] unfolding t by (rule conjI)
qed

text \<open>
  C2. A line of the input without an equals sign that contains a colon or a tab: the
  name is the text before the first of them, trimmed, and the table is the text between
  it and the next colon or tab (or the end of the line), trimmed. What follows a second
  colon or tab has no effect on the item.
\<close>

theorem colon_tab_rule_two_segments:
  assumes "line \<in> set (text_lines text)" and "CHR ''='' \<notin> set line"
    and "line = a @ d # b @ rest" and "d = CHR '':'' \<or> d = CHR 0x09"
    and "\<forall>c\<in>set a. c \<noteq> CHR '':'' \<and> c \<noteq> CHR 0x09"
    and "\<forall>c\<in>set b. c \<noteq> CHR '':'' \<and> c \<noteq> CHR 0x09"
    and "rest = [] \<or> hd rest = CHR '':'' \<or> hd rest = CHR 0x09"
  shows "parseLine line = Inr \<lparr>name = trim a, table = trim b\<rparr>
    \<and> parseLine line = parseLine (a @ d # b)"
proof -
  have eq: "CHR ''='' \<notin> set (a @ d # b @ rest)" using assms(2,3) by simp
  have 1: "parseLine (a @ d # b @ rest) = Inr \<lparr>name = trim a, table = trim b\<rparr>"
    using eq assms(4-7) by (rule parseLine_alt_split)
  have eq': "CHR ''='' \<notin> set (a @ d # b @ [])" using eq by simp
  have "parseLine (a @ d # b @ []) = Inr \<lparr>name = trim a, table = trim b\<rparr>"
    using eq' assms(4-6) by (rule parseLine_alt_split) simp
  then show ?thesis using 1 assms(3) by simp
qed

theorem colon_tab_rule_two_segments_witness:
  "parseLine ''Bob Martin : Table 10 : extra''
     = Inr \<lparr>name = ''Bob Martin'', table = ''Table 10''\<rparr>
   \<and> parseLine ''Bob Martin : Table 10 : extra'' = parseLine ''Bob Martin : Table 10 ''"
proof -
  have l: "''Bob Martin : Table 10 : extra'' \<in> set (text_lines ''Bob Martin : Table 10 : extra'')"
    by code_simp
  have e: "CHR ''='' \<notin> set ''Bob Martin : Table 10 : extra''" by simp
  have s: "''Bob Martin : Table 10 : extra'' = ''Bob Martin '' @ CHR '':'' # '' Table 10 '' @ '': extra''"
    by simp
  have d: "CHR '':'' = CHR '':'' \<or> CHR '':'' = CHR 0x09" by simp
  have a: "\<forall>c\<in>set ''Bob Martin ''. c \<noteq> CHR '':'' \<and> c \<noteq> CHR 0x09" by simp
  have b: "\<forall>c\<in>set '' Table 10 ''. c \<noteq> CHR '':'' \<and> c \<noteq> CHR 0x09" by simp
  have r: "'': extra'' = [] \<or> hd '': extra'' = CHR '':'' \<or> hd '': extra'' = CHR 0x09" by simp
  have t: "trim ''Bob Martin '' = ''Bob Martin''" "trim '' Table 10 '' = ''Table 10''"
    by code_simp+
  have c: "''Bob Martin '' @ CHR '':'' # '' Table 10 '' = ''Bob Martin : Table 10 ''" by simp
  show ?thesis
    using colon_tab_rule_two_segments [OF l e s d a b r] unfolding t c .
qed

text \<open>
  C5. A line with no equals sign, colon or tab gives the item whose name is the trimmed
  line and whose table is empty. Blank lines give no item: \<^verbatim>\<open>lines.map\<close> yields exactly
  one item for each line that is not blank, in order, and a text of blank lines only
  parses to the empty list.
\<close>

theorem no_delimiter_fallback_and_blank_lines:
  "(CHR ''='' \<notin> set line \<and> CHR '':'' \<notin> set line \<and> CHR 0x09 \<notin> set line
      \<longrightarrow> parseLine line = Inr \<lparr>name = trim line, table = []\<rparr>)
   \<and> (\<exists>items. mapped_items text = Inr items
        \<and> map Inr items = map parseLine (filter (\<lambda>l. trim l \<noteq> []) (split_newline text)))
   \<and> ((\<forall>l\<in>set (split_newline text). trim l = []) \<longrightarrow> parseNamesFromText text = Inr [])"
proof (intro conjI impI)
  assume "CHR ''='' \<notin> set line \<and> CHR '':'' \<notin> set line \<and> CHR 0x09 \<notin> set line"
  then show "parseLine line = Inr \<lparr>name = trim line, table = []\<rparr>"
    by (simp add: parseLine_no_delimiter)
next
  show "\<exists>items. mapped_items text = Inr items
        \<and> map Inr items = map parseLine (filter (\<lambda>l. trim l \<noteq> []) (split_newline text))"
    using mapped_items_lines [of "text"] by (simp add: text_lines_def)
next
  assume "\<forall>l\<in>set (split_newline text). trim l = []"
  then have "text_lines text = []" by (simp add: text_lines_def)
  then have "mapped_items text = Inr []" by (simp add: mapped_items_def)
  then show "parseNamesFromText text = Inr []" by (simp add: parseNamesFromText_def)
qed

theorem no_delimiter_fallback_and_blank_lines_witness:
  "parseLine ''Just a Name'' = Inr \<lparr>name = ''Just a Name'', table = []\<rparr>
   \<and> parseNamesFromText [CHR '' '', CHR 0x0A, CHR 0x09, CHR 0x0D, CHR 0x0A] = Inr []"
proof -
  have h1: "CHR ''='' \<notin> set ''Just a Name'' \<and> CHR '':'' \<notin> set ''Just a Name''
      \<and> CHR 0x09 \<notin> set ''Just a Name''" by simp
  have h2: "\<forall>l\<in>set (split_newline [CHR '' '', CHR 0x0A, CHR 0x09, CHR 0x0D, CHR 0x0A]). trim l = []"
    by code_simp
  have t: "trim ''Just a Name'' = ''Just a Name''" by code_simp
  note w = no_delimiter_fallback_and_blank_lines
    [of "''Just a Name''" "[CHR '' '', CHR 0x0A, CHR 0x09, CHR 0x0D, CHR 0x0A]"]
  have 1: "parseLine ''Just a Name'' = Inr \<lparr>name = ''Just a Name'', table = []\<rparr>"
    using w [THEN conjunct1, rule_format, OF h1] unfolding t .
  have 2: "parseNamesFromText [CHR '' '', CHR 0x0A, CHR 0x09, CHR 0x0D, CHR 0x0A] = Inr []"
    using w [THEN conjunct2, THEN conjunct2, THEN mp, OF h2] .
  show ?thesis using 1 2 by (rule conjI)
qed

section \<open>The spreadsheet re-split\<close>

text \<open>
  C3. In the spreadsheet branch a first cell with two equals signs (second cell absent)
  keeps only the text between them as table, where the text parser keeps all that
  follows the first equals sign.
\<close>

theorem spreadsheet_resplit_drops_later_equals:
  "extractNamesFromRows [[''Name = Table = Something'']]
     = Inr [\<lparr>name = ''Name'', table = ''Table''\<rparr>]
   \<and> parseNamesFromText ''Name = Table = Something''
     = Inr [\<lparr>name = ''Name'', table = ''Table = Something''\<rparr>]"
  by code_simp

section \<open>Filter, order and names of the output\<close>

text \<open>
  C4. The final filter removes exactly the items whose name, in lower case and with
  every white-space character removed, is \<open>liste\<close> or empty. A name in which \<open>liste\<close> is
  only a part of that normal form stays.
\<close>

theorem liste_filter_exact:
  assumes "mapped_items text = Inr items"
  shows "parseNamesFromText text
      = Inr (filter (\<lambda>r. filter (\<lambda>c. \<not> is_space c) (map toLowerChar (name r))
                            \<notin> {''liste'', []}) items)
    \<and> (\<forall>r\<in>set items. \<forall>u v.
          filter (\<lambda>c. \<not> is_space c) (map toLowerChar (name r)) = u @ ''liste'' @ v
            \<and> (u \<noteq> [] \<or> v \<noteq> [])
          \<longrightarrow> (\<exists>rs. parseNamesFromText text = Inr rs \<and> r \<in> set rs))"
proof -
  have k: "keep_item = (\<lambda>r. filter (\<lambda>c. \<not> is_space c) (map toLowerChar (name r))
                            \<notin> {''liste'', []})"
    by (rule ext) (rule keep_item_iff)
  have p: "parseNamesFromText text = Inr (filter keep_item items)"
    using assms by (rule parseNamesFromText_items)
  have "\<exists>rs. parseNamesFromText text = Inr rs \<and> r \<in> set rs"
    if r: "r \<in> set items"
      and n: "filter (\<lambda>c. \<not> is_space c) (map toLowerChar (name r)) = u @ ''liste'' @ v"
      and uv: "u \<noteq> [] \<or> v \<noteq> []" for r u v
  proof -
    have "length (u @ ''liste'' @ v) \<noteq> length ''liste''" using uv by auto
    then have "u @ ''liste'' @ v \<noteq> ''liste''" by metis
    moreover have "u @ ''liste'' @ v \<noteq> []" by simp
    ultimately have "keep_item r" unfolding keep_item_iff n by simp
    then show ?thesis using p r by simp
  qed
  then show ?thesis using p unfolding k by blast
qed

theorem liste_filter_exact_witness:
  "parseNamesFromText (''L i s t e'' @ [CHR 0x0A] @ ''Listen Carl = 4'' @ [CHR 0x0A] @ ''LISTE'')
     = Inr [\<lparr>name = ''Listen Carl'', table = ''4''\<rparr>]
   \<and> (\<exists>rs. parseNamesFromText
          (''L i s t e'' @ [CHR 0x0A] @ ''Listen Carl = 4'' @ [CHR 0x0A] @ ''LISTE'') = Inr rs
        \<and> \<lparr>name = ''Listen Carl'', table = ''4''\<rparr> \<in> set rs)"
proof -
  let ?t = "''L i s t e'' @ [CHR 0x0A] @ ''Listen Carl = 4'' @ [CHR 0x0A] @ ''LISTE''"
  let ?items = "[\<lparr>name = ''L i s t e'', table = []\<rparr>,
      \<lparr>name = ''Listen Carl'', table = ''4''\<rparr>, \<lparr>name = ''LISTE'', table = []\<rparr>]"
  have m: "mapped_items ?t = Inr ?items" by code_simp
  have f: "filter (\<lambda>r. filter (\<lambda>c. \<not> is_space c) (map toLowerChar (name r))
                            \<notin> {''liste'', []}) ?items
      = [\<lparr>name = ''Listen Carl'', table = ''4''\<rparr>]" by code_simp
  have r: "\<lparr>name = ''Listen Carl'', table = ''4''\<rparr> \<in> set ?items" by simp
  have n: "filter (\<lambda>c. \<not> is_space c)
        (map toLowerChar (name \<lparr>name = ''Listen Carl'', table = ''4''\<rparr>))
      = [] @ ''liste'' @ ''ncarl'' \<and> ([] \<noteq> ([] :: string) \<or> ''ncarl'' \<noteq> [])" by code_simp
  have 1: "parseNamesFromText ?t = Inr [\<lparr>name = ''Listen Carl'', table = ''4''\<rparr>]"
    using liste_filter_exact [OF m, THEN conjunct1] unfolding f .
  have 2: "\<exists>rs. parseNamesFromText ?t = Inr rs
        \<and> \<lparr>name = ''Listen Carl'', table = ''4''\<rparr> \<in> set rs"
    using liste_filter_exact [OF m, THEN conjunct2, THEN bspec, OF r, THEN spec, THEN spec,
        THEN mp, OF n] .
  show ?thesis using 1 2 by (rule conjI)
qed

text \<open>
  C6. Both parsers keep the order of their input and do not deduplicate: the output is a
  subsequence of the items of the lines (of the rows), and an item that passes the
  filter occurs in the output as often as lines (rows) produce it.
\<close>

theorem order_preserved_no_dedup:
  "(\<exists>rs. parseNamesFromText text = Inr rs
      \<and> subseq (map Inr rs) (map parseLine (split_newline text))
      \<and> (\<forall>r. keep_item r
            \<longrightarrow> count_list rs r = count_list (map parseLine (split_newline text)) (Inr r)))
   \<and> (\<exists>rs. extractNamesFromRows data = Inr rs
      \<and> subseq (map Inr rs) (map parseRow data)
      \<and> (\<forall>r. name r \<noteq> []
            \<longrightarrow> count_list rs r = count_list (map parseRow data) (Inr r)))"
proof (rule conjI)
  obtain items where m: "mapped_items text = Inr items"
    and i: "map Inr items = map parseLine (text_lines text)"
    using mapped_items_lines [of "text"] by blast
  let ?rs = "filter keep_item items"
  have p: "parseNamesFromText text = Inr ?rs" using m by (rule parseNamesFromText_items)
  have "subseq (map Inr ?rs) (map parseLine (text_lines text))"
    unfolding i [symmetric] by (simp add: subseq_map)
  moreover have "subseq (map parseLine (text_lines text)) (map parseLine (split_newline text))"
    unfolding text_lines_def by (simp add: subseq_map)
  ultimately have s: "subseq (map Inr ?rs) (map parseLine (split_newline text))"
    by (rule subseq_order.trans)
  have c: "count_list ?rs r = count_list (map parseLine (split_newline text)) (Inr r)"
    if k: "keep_item r" for r
  proof -
    have "count_list ?rs r = count_list items r" using k by (simp add: count_list_filter)
    also have "\<dots> = count_list (map parseLine (text_lines text)) (Inr r)"
      unfolding i [symmetric] by (simp add: count_list_Inr)
    also have "\<dots> = count_list (map parseLine (split_newline text)) (Inr r)"
      unfolding text_lines_def using keep_item_name [OF k] by (rule count_parseLine_blank)
    finally show ?thesis .
  qed
  show "\<exists>rs. parseNamesFromText text = Inr rs
      \<and> subseq (map Inr rs) (map parseLine (split_newline text))
      \<and> (\<forall>r. keep_item r
            \<longrightarrow> count_list rs r = count_list (map parseLine (split_newline text)) (Inr r))"
    using p s c by blast
next
  obtain items where i: "map Inr items = map parseRow data"
    and e: "extractNamesFromRows data = Inr (filter (\<lambda>row. name row \<noteq> []) items)"
    using extractNamesFromRows_items [of data] by blast
  let ?rs = "filter (\<lambda>row. name row \<noteq> []) items"
  have s: "subseq (map Inr ?rs) (map parseRow data)"
    unfolding i [symmetric] by (simp add: subseq_map)
  have c: "count_list ?rs r = count_list (map parseRow data) (Inr r)" if "name r \<noteq> []" for r
  proof -
    have "count_list ?rs r = count_list items r" using that by (simp add: count_list_filter)
    also have "\<dots> = count_list (map parseRow data) (Inr r)"
      unfolding i [symmetric] by (simp add: count_list_Inr)
    finally show ?thesis .
  qed
  show "\<exists>rs. extractNamesFromRows data = Inr rs
      \<and> subseq (map Inr rs) (map parseRow data)
      \<and> (\<forall>r. name r \<noteq> []
            \<longrightarrow> count_list rs r = count_list (map parseRow data) (Inr r))"
    using e s c by blast
qed

theorem order_preserved_no_dedup_witness:
  "keep_item \<lparr>name = ''Bob'', table = []\<rparr>
   \<and> count_list (map parseLine (split_newline (''Bob'' @ [CHR 0x0A] @ ''Anna'' @ [CHR 0x0A] @ ''Bob'')))
        (Inr \<lparr>name = ''Bob'', table = []\<rparr>) = 2
   \<and> count_list (map parseRow [[''Bob'', ''1''], [''Bob'', ''1'']])
        (Inr \<lparr>name = ''Bob'', table = ''1''\<rparr>) = 2"
proof -
  let ?t = "''Bob'' @ [CHR 0x0A] @ ''Anna'' @ [CHR 0x0A] @ ''Bob''"
  let ?d = "[[''Bob'', ''1''], [''Bob'', ''1'']]"
  let ?b = "\<lparr>name = ''Bob'', table = []\<rparr>"
  let ?b1 = "\<lparr>name = ''Bob'', table = ''1''\<rparr>"
  from order_preserved_no_dedup [of ?t ?d]
  obtain rs rs' where p: "parseNamesFromText ?t = Inr rs"
    and c: "\<forall>r. keep_item r
      \<longrightarrow> count_list rs r = count_list (map parseLine (split_newline ?t)) (Inr r)"
    and e: "extractNamesFromRows ?d = Inr rs'"
    and c': "\<forall>r. name r \<noteq> []
      \<longrightarrow> count_list rs' r = count_list (map parseRow ?d) (Inr r)"
    by (elim conjE exE)
  have pv: "parseNamesFromText ?t = Inr [?b, \<lparr>name = ''Anna'', table = []\<rparr>, ?b]"
    by code_simp
  have ev: "extractNamesFromRows ?d = Inr [?b1, ?b1]" by code_simp
  have k: "keep_item ?b" by code_simp
  have n: "name ?b1 \<noteq> []" by simp
  have rs: "rs = [?b, \<lparr>name = ''Anna'', table = []\<rparr>, ?b]" using p pv by simp
  have rs': "rs' = [?b1, ?b1]" using e ev by simp
  have 1: "count_list (map parseLine (split_newline ?t)) (Inr ?b) = 2"
    using c [THEN spec, THEN mp, OF k] unfolding rs by simp
  have 2: "count_list (map parseRow ?d) (Inr ?b1) = 2"
    using c' [THEN spec, THEN mp, OF n] unfolding rs' by simp
  show ?thesis using k 1 2 by (intro conjI)
qed

text \<open>
  C7. Every item of either output has a name that is not empty and is already trimmed;
  nothing of the kind holds of the table.
\<close>

theorem output_names_non_empty:
  "(parseNamesFromText text = Inr rs
      \<longrightarrow> (\<forall>r\<in>set rs. name r \<noteq> [] \<and> trim (name r) = name r))
   \<and> (extractNamesFromRows data = Inr rs'
      \<longrightarrow> (\<forall>r\<in>set rs'. name r \<noteq> [] \<and> trim (name r) = name r))"
proof (intro conjI impI ballI)
  fix r
  assume p: "parseNamesFromText text = Inr rs" and r: "r \<in> set rs"
  obtain items where m: "mapped_items text = Inr items"
    using mapped_items_lines [of "text"] by blast
  then have "rs = filter keep_item items" using p by (simp add: parseNamesFromText_def)
  then have k: "keep_item r" and "r \<in> set items" using r by simp_all
  then obtain l where "parseLine l = Inr r" using mapped_items_member [OF m] by blast
  then show "trim (name r) = name r" by (rule parseLine_name_trimmed)
  show "name r \<noteq> []" using k by (rule keep_item_name)
next
  fix r
  assume e: "extractNamesFromRows data = Inr rs'" and r: "r \<in> set rs'"
  obtain items where i: "map Inr items = map parseRow data"
    and e': "extractNamesFromRows data = Inr (filter (\<lambda>row. name row \<noteq> []) items)"
    using extractNamesFromRows_items [of data] by blast
  have "rs' = filter (\<lambda>row. name row \<noteq> []) items" using e e' by simp
  then have n: "name r \<noteq> []" and "r \<in> set items" using r by simp_all
  then have "Inr r \<in> set (map parseRow data)" unfolding i [symmetric] by simp
  then obtain row where "parseRow row = Inr r" by auto
  then show "trim (name r) = name r" by (rule parseRow_name_trimmed)
  show "name r \<noteq> []" by (rule n)
qed

theorem output_names_non_empty_witness:
  "parseNamesFromText (''Just a Name'' @ [CHR 0x0A] @ '' = 5'')
     = Inr [\<lparr>name = ''Just a Name'', table = []\<rparr>]
   \<and> extractNamesFromRows [[''Anna''], ['''', ''3'']] = Inr [\<lparr>name = ''Anna'', table = []\<rparr>]
   \<and> name \<lparr>name = ''Just a Name'', table = []\<rparr> \<noteq> []
   \<and> trim (name \<lparr>name = ''Just a Name'', table = []\<rparr>) = ''Just a Name''
   \<and> name \<lparr>name = ''Anna'', table = []\<rparr> \<noteq> []
   \<and> trim (name \<lparr>name = ''Anna'', table = []\<rparr>) = ''Anna''"
proof -
  let ?j = "\<lparr>name = ''Just a Name'', table = []\<rparr>"
  let ?a = "\<lparr>name = ''Anna'', table = []\<rparr>"
  have pv: "parseNamesFromText (''Just a Name'' @ [CHR 0x0A] @ '' = 5'') = Inr [?j]"
    by code_simp
  have ev: "extractNamesFromRows [[''Anna''], ['''', ''3'']] = Inr [?a]"
    by code_simp
  note w = output_names_non_empty [of "''Just a Name'' @ [CHR 0x0A] @ '' = 5''"
      "[?j]" "[[''Anna''], ['''', ''3'']]" "[?a]"]
  have j: "?j \<in> set [?j]" and a: "?a \<in> set [?a]" by simp_all
  have 1: "name ?j \<noteq> [] \<and> trim (name ?j) = name ?j"
    using w [THEN conjunct1, THEN mp, OF pv, THEN bspec, OF j] .
  have 2: "name ?a \<noteq> [] \<and> trim (name ?a) = name ?a"
    using w [THEN conjunct2, THEN mp, OF ev, THEN bspec, OF a] .
  show ?thesis using pv ev 1 2 by simp
qed

section \<open>Totality and round trip\<close>

text \<open>
  C8. The text parser throws on no string: every line parses to an item, every text to
  a list of items, and the empty text to the empty list.
\<close>

theorem parseNamesFromText_never_throws:
  "(\<exists>rs. parseNamesFromText text = Inr rs) \<and> (\<exists>r. parseLine line = Inr r)
   \<and> parseNamesFromText [] = Inr []"
proof (intro conjI)
  obtain items where "mapped_items text = Inr items"
    using mapped_items_lines [of "text"] by blast
  then show "\<exists>rs. parseNamesFromText text = Inr rs"
    by (simp add: parseNamesFromText_def)
next
  show "\<exists>r. parseLine line = Inr r" by (rule parseLine_total)
next
  have "text_lines [] = []" by (simp add: text_lines_def trim_def)
  then show "parseNamesFromText [] = Inr []"
    by (simp add: parseNamesFromText_def mapped_items_def)
qed

text \<open>
  C9. An item of the output whose name and table contain no equals sign, colon or tab is
  parsed again from the line \<open>name = table\<close>: the result is that one item.
\<close>

theorem reparse_round_trip:
  assumes "parseNamesFromText text = Inr rs" and "r \<in> set rs"
    and "\<forall>c\<in>set (name r @ table r). c \<noteq> CHR ''='' \<and> c \<noteq> CHR '':'' \<and> c \<noteq> CHR 0x09"
  shows "parseNamesFromText (name r @ '' = '' @ table r) = Inr [r]"
proof -
  let ?L = "name r @ '' = '' @ table r"
  obtain items where m: "mapped_items text = Inr items"
    using mapped_items_lines [of "text"] by blast
  then have "rs = filter keep_item items" using assms(1) by (simp add: parseNamesFromText_def)
  then have k: "keep_item r" and "r \<in> set items" using assms(2) by simp_all
  then obtain l where l: "l \<in> set (text_lines text)" and pl: "parseLine l = Inr r"
    using mapped_items_member [OF m] by blast
  have "l \<in> set (split_newline text)" using l by (simp add: text_lines_def)
  then have nl: "CHR 0x0A \<notin> set l" by (rule split_newline_no_LF)
  obtain x y where x: "name r = trim x" "set x \<subseteq> set l"
    and y: "table r = trim y" "set y \<subseteq> set l"
    using parseLine_fields [OF pl] by blast
  have "CHR 0x0A \<notin> set (name r)" "CHR 0x0A \<notin> set (table r)"
    using nl x y set_trim [of x] set_trim [of y] by auto
  then have "CHR 0x0A \<notin> set ?L" by simp
  then have sl: "split_newline ?L = [?L]" by (rule split_newline_single)
  have "CHR ''='' \<in> set ?L" by simp
  then have "trim ?L \<noteq> []" using not_space_equals by (auto simp: trim_eq_Nil)
  then have tl: "text_lines ?L = [?L]" unfolding text_lines_def sl by simp
  have tn: "trim (name r @ '' '') = name r"
    using trim_append_spaces [of "'' ''" "name r"] parseLine_name_trimmed [OF pl]
    by (simp add: is_space_blank)
  have tt: "trim ('' '' @ table r) = table r"
    using trim_space_Cons [OF is_space_blank, of "table r"] parseLine_table_trimmed [OF pl]
    by simp
  have "CHR ''='' \<notin> set (name r @ '' '')" using assms(3) by auto
  then have "parseLine ((name r @ '' '') @ CHR ''='' # ('' '' @ table r))
      = Inr \<lparr>name = trim (name r @ '' ''), table = trim ('' '' @ table r)\<rparr>"
    by (rule parseLine_equals_split)
  then have "parseLine ?L = Inr \<lparr>name = name r, table = table r\<rparr>"
    unfolding tn tt by simp
  then have "parseLine ?L = Inr r" by simp
  then have "mapped_items ?L = Inr [r]" unfolding mapped_items_def tl by simp
  then show ?thesis using k unfolding parseNamesFromText_def by simp
qed

theorem reparse_round_trip_witness:
  "parseNamesFromText (''John Doe=Table 1'' @ [CHR 0x0A] @ ''Anna'')
     = Inr [\<lparr>name = ''John Doe'', table = ''Table 1''\<rparr>, \<lparr>name = ''Anna'', table = []\<rparr>]
   \<and> parseNamesFromText ''John Doe = Table 1''
     = Inr [\<lparr>name = ''John Doe'', table = ''Table 1''\<rparr>]"
proof -
  let ?r = "\<lparr>name = ''John Doe'', table = ''Table 1''\<rparr>"
  have p: "parseNamesFromText (''John Doe=Table 1'' @ [CHR 0x0A] @ ''Anna'')
     = Inr [?r, \<lparr>name = ''Anna'', table = []\<rparr>]" by code_simp
  have r: "?r \<in> set [?r, \<lparr>name = ''Anna'', table = []\<rparr>]" by simp
  have d: "\<forall>c\<in>set (name ?r @ table ?r). c \<noteq> CHR ''='' \<and> c \<noteq> CHR '':'' \<and> c \<noteq> CHR 0x09"
    by simp
  have "parseNamesFromText (name ?r @ '' = '' @ table ?r) = Inr [?r]"
    using p r d by (rule reparse_round_trip)
  then have "parseNamesFromText ''John Doe = Table 1'' = Inr [?r]" by simp
  then show ?thesis using p by (intro conjI)
qed

section \<open>The DOCX utility against the text parser\<close>

text \<open>
  C10. The DOCX utility splits on the equals sign only: a line without one becomes the
  item with the trimmed line as name and an empty table, colons and tabs included. On
  such a line the text parser gives a different item exactly when the line contains a
  colon, or a character that is not white space after its first tab.
\<close>

theorem docx_equals_rule_only:
  assumes "CHR ''='' \<notin> set line"
  shows "parseDocxLine line = Inr \<lparr>name = trim line, table = []\<rparr>
    \<and> (parseLine line \<noteq> parseDocxLine line
        \<longleftrightarrow> CHR '':'' \<in> set line
            \<or> (\<exists>c\<in>set (dropWhile (\<lambda>c. c \<noteq> CHR 0x09) line). \<not> is_space c))"
  using parseDocxLine_no_equals [OF assms] parsers_agree_iff [OF assms] by blast

theorem docx_equals_rule_only_witness:
  "parseDocxLine ''Bob Martin : Table 10''
     = Inr \<lparr>name = ''Bob Martin : Table 10'', table = []\<rparr>
   \<and> parseLine ''Bob Martin : Table 10'' \<noteq> parseDocxLine ''Bob Martin : Table 10''"
proof -
  have e: "CHR ''='' \<notin> set ''Bob Martin : Table 10''" by simp
  have c: "CHR '':'' \<in> set ''Bob Martin : Table 10''" by simp
  have t: "trim ''Bob Martin : Table 10'' = ''Bob Martin : Table 10''" by code_simp
  note w = docx_equals_rule_only [OF e]
  have 1: "parseDocxLine ''Bob Martin : Table 10''
     = Inr \<lparr>name = ''Bob Martin : Table 10'', table = []\<rparr>"
    using w [THEN conjunct1] unfolding t .
  have 2: "parseLine ''Bob Martin : Table 10'' \<noteq> parseDocxLine ''Bob Martin : Table 10''"
    using w [THEN conjunct2, THEN iffD2, OF disjI1, OF c] .
  show ?thesis using 1 2 by (rule conjI)
qed

text \<open>
  C10, as first stated (the two parsers differ on every line without an equals sign that
  contains a colon or a tab), fails on a line that ends in a tab: the tab is white space,
  so both parsers give the name \<open>foo\<close> and an empty table.
\<close>

theorem docx_agrees_on_trailing_tab:
  "CHR ''='' \<notin> set (''foo'' @ [CHR 0x09]) \<and> CHR 0x09 \<in> set (''foo'' @ [CHR 0x09])
   \<and> parseDocxLine (''foo'' @ [CHR 0x09]) = Inr \<lparr>name = ''foo'', table = []\<rparr>
   \<and> parseLine (''foo'' @ [CHR 0x09]) = parseDocxLine (''foo'' @ [CHR 0x09])"
  by code_simp

end
